theory Spec2Isabelle
  imports Main
begin

section \<open>Results of Go calls\<close>

text \<open>
  A Go call either returns or panics. A panic aborts the process, so it is a value of
  its own and not one of the errors a function returns.
\<close>

datatype 'a outcome = Panic string | Return 'a

section \<open>The part of the Go library the code calls\<close>

text \<open>
  Go strings are byte sequences; a \<^typ>\<open>string\<close> is the list of its bytes.

  \<open>strings.Index(s, sep)\<close>: the position of the first occurrence of \<open>sep\<close> in \<open>s\<close>,
  and \<open>-1\<close> when there is none.
\<close>

fun strings_Index :: "string \<Rightarrow> string \<Rightarrow> int" where
  "strings_Index [] sep = (if sep = [] then 0 else -1)"
| "strings_Index (c # cs) sep =
     (if take (length sep) (c # cs) = sep then 0
      else (let m = strings_Index cs sep in if m < 0 then -1 else m + 1))"

text \<open>\<open>strings.LastIndex(s, sep)\<close>: the position of the last occurrence, or \<open>-1\<close>.\<close>

fun strings_LastIndex :: "string \<Rightarrow> string \<Rightarrow> int" where
  "strings_LastIndex [] sep = (if sep = [] then 0 else -1)"
| "strings_LastIndex (c # cs) sep =
     (let m = strings_LastIndex cs sep in
      if 0 \<le> m then m + 1
      else if take (length sep) (c # cs) = sep then 0 else -1)"

text \<open>
  The loop of \<open>strings.SplitN\<close> (\<open>genSplit\<close> in the Go library) for a separator that is
  not empty: at most \<open>k\<close> cuts, each at the first occurrence of the separator in what is
  left, and the rest of the string as the last part.
\<close>

fun genSplit :: "string \<Rightarrow> string \<Rightarrow> nat \<Rightarrow> string list" where
  "genSplit s sep 0 = [s]"
| "genSplit s sep (Suc k) =
     (let m = strings_Index s sep in
      if m < 0 then [s]
      else take (nat m) s # genSplit (drop (nat m + length sep) s) sep k)"

text \<open>
  \<open>strings.SplitN(s, sep, n)\<close> for \<open>n \<ge> 0\<close> and a separator that is not empty, the only
  way the code calls it: no part for \<open>n = 0\<close>, otherwise at most \<open>n\<close> parts, \<open>n\<close> first
  capped at \<open>len(s) + 1\<close> as the library does.
\<close>

definition strings_SplitN :: "string \<Rightarrow> string \<Rightarrow> nat \<Rightarrow> string list" where
  "strings_SplitN s sep n =
     (if n = 0 then [] else genSplit s sep (min n (length s + 1) - 1))"

text \<open>
  \<open>strings.ToLower\<close>. On a string of ASCII bytes the library maps \<open>A..Z\<close> to \<open>a..z\<close>
  byte by byte. On any other string it maps every rune through the Unicode case tables,
  which are no part of this repository: that branch is the parameter \<open>unicodeLower\<close>.
\<close>

definition isASCII :: "string \<Rightarrow> bool" where
  "isASCII s = list_all (\<lambda>c. (of_char c :: nat) < 128) s"

definition lowerByte :: "char \<Rightarrow> char" where
  "lowerByte c =
     (if (65::nat) \<le> of_char c \<and> (of_char c :: nat) \<le> 90
      then char_of ((of_char c :: nat) + 32) else c)"

definition strings_ToLower :: "(string \<Rightarrow> string) \<Rightarrow> string \<Rightarrow> string" where
  "strings_ToLower unicodeLower s = (if isASCII s then map lowerByte s else unicodeLower s)"

section \<open>The addressing scheme (schema.go)\<close>

type_synonym Database = string

text \<open>
  A table holds its indices and an index holds its table by value. The path functions
  read the database, the name and the field only. \<open>NewTable\<close> fills the indices of a
  table with copies of the table that share its slice of indices; no property below
  depends on that sharing, and it is left out.
\<close>

datatype Table = MkTable (Database: Database) (Name: string) (Indices: "Index list")
  and Index = MkIndex (Table: Table) (Field: string)

record DatabaseTableIdTuple =
  tupDatabase :: string
  tupTable :: string
  tupId :: string

text \<open>
  The errors of the addressing scheme, each with the text the Go error formats in:
  \<open>ADB-0033\<close> no such index, \<open>ADB-0032\<close> no such database or table, \<open>ADB-0034\<close>
  invalid path.
\<close>

datatype schema_error =
    UnknownIndex string
  | TableMismatch DatabaseTableIdTuple
  | MalformedPath string

definition NewDatabase :: "string \<Rightarrow> Database" where
  "NewDatabase name = name"

definition Table_pathPrefix :: "Table \<Rightarrow> string" where
  "Table_pathPrefix t = Database t @ ''/'' @ Name t @ ''/data''"

definition Table_Path :: "Table \<Rightarrow> string \<Rightarrow> string" where
  "Table_Path t ident = Table_pathPrefix t @ ''/'' @ ident @ ''.json''"

definition Table_IndicesPath :: "Table \<Rightarrow> string \<Rightarrow> string" where
  "Table_IndicesPath t ident = Table_pathPrefix t @ ''/'' @ ident @ ''.indices''"

fun GetIndex_loop :: "Index list \<Rightarrow> string \<Rightarrow> schema_error + Index" where
  "GetIndex_loop [] field = Inl (UnknownIndex field)"
| "GetIndex_loop (index # rest) field =
     (if Field index = field then Inr index else GetIndex_loop rest field)"

definition Table_GetIndex :: "Table \<Rightarrow> string \<Rightarrow> schema_error + Index" where
  "Table_GetIndex t field = GetIndex_loop (Indices t) field"

definition Table_PathFromIndex :: "Table \<Rightarrow> DatabaseTableIdTuple \<Rightarrow> schema_error + string" where
  "Table_PathFromIndex t databaseTableIdTuple =
     (if tupDatabase databaseTableIdTuple \<noteq> Database t \<or> tupTable databaseTableIdTuple \<noteq> Name t
      then Inl (TableMismatch databaseTableIdTuple)
      else Inr (Table_pathPrefix t @ ''/'' @ tupId databaseTableIdTuple @ ''.json''))"

text \<open>
  Lines 53 to 58 of \<open>DatabaseTableIdTupleFromPath\<close>: what is left of the path after the
  last slash, the whole path when it has none.
\<close>

definition afterLastSlash :: "string \<Rightarrow> string" where
  "afterLastSlash path =
     (let idx = strings_LastIndex path ''/'' in
      if idx = -1 then path else drop (nat (idx + 1)) path)"

definition DatabaseTableIdTupleFromPath :: "string \<Rightarrow> schema_error + DatabaseTableIdTuple" where
  "DatabaseTableIdTupleFromPath path0 =
     (let path = afterLastSlash path0;
          parts = strings_SplitN path ''___'' 3 in
      if length parts \<noteq> 3 then Inl (MalformedPath path)
      else Inr \<lparr>tupDatabase = parts ! 0, tupTable = parts ! 1, tupId = parts ! 2\<rparr>)"

definition Index_PathPrefix :: "Index \<Rightarrow> string" where
  "Index_PathPrefix i =
     Database (Table i) @ ''/'' @ Name (Table i) @ ''/indices/'' @ Field i"

text \<open>The padding loop of \<open>PathNoId\<close>.\<close>

function padLoop :: "string \<Rightarrow> string" where
  "padLoop fieldValue =
     (if length fieldValue < 2 then padLoop (''_'' @ fieldValue) else fieldValue)"
  by pat_completeness auto
termination
  by (relation "measure (\<lambda>s. 2 - length s)") auto

declare padLoop.simps [simp del]

text \<open>
  \<open>fieldValue[:2]\<close> panics when the string has fewer than two bytes; the padding loop runs
  before the lower-casing, so the slice is taken of what \<open>strings_ToLower\<close> returns.
\<close>

definition Index_PathNoId :: "(string \<Rightarrow> string) \<Rightarrow> Index \<Rightarrow> string \<Rightarrow> string outcome" where
  "Index_PathNoId unicodeLower i fieldValue0 =
     (let fieldValue = strings_ToLower unicodeLower (padLoop fieldValue0) in
      if length fieldValue < 2 then Panic ''slice bounds out of range''
      else Return (Index_PathPrefix i @ ''/'' @ take 2 fieldValue @ ''/'' @ fieldValue))"

definition Index_Path :: "(string \<Rightarrow> string) \<Rightarrow> Index \<Rightarrow> string \<Rightarrow> string \<Rightarrow> string outcome" where
  "Index_Path unicodeLower i fieldValue entityId =
     (let database_table_id = Database (Table i) @ ''___'' @ Name (Table i) @ ''___'' @ entityId in
      case Index_PathNoId unicodeLower i fieldValue of
        Panic msg \<Rightarrow> Panic msg
      | Return p \<Rightarrow> Return (p @ ''/'' @ database_table_id))"

section \<open>The transaction log\<close>

text \<open>
  \<open>time.Time\<close> is an instant in nanoseconds since the Unix epoch and \<open>time.Duration\<close> a
  number of nanoseconds; \<open>UnixMicro\<close> rounds down to microseconds. The \<open>int64\<close> fields
  hold what \<open>UnixMicro\<close> returns and are only compared and printed, so they are integers
  here. Every \<open>time.Now()\<close> of the code is a clock reading passed in by the caller.
\<close>

type_synonym Time = int
type_synonym Duration = int

definition UnixMicro :: "Time \<Rightarrow> int" where
  "UnixMicro t = t div 1000"

definition Time_Add :: "Time \<Rightarrow> Duration \<Rightarrow> Time" where
  "Time_Add t d = t + d"

text \<open>\<open>fmt.Sprintf("%d", n)\<close>: the decimal digits of an integer.\<close>

fun decimal :: "nat \<Rightarrow> string" where
  "decimal n =
     (if n < 10 then [char_of (48 + n)]
      else decimal (n div 10) @ [char_of (48 + n mod 10)])"

definition Sprintf_d :: "int \<Rightarrow> string" where
  "Sprintf_d n = (if n < 0 then ''-'' @ decimal (nat (- n)) else decimal (nat n))"

definition TX_ID :: string where
  "TX_ID = ''Tx-Id''"

definition LAST_MODIFIED :: string where
  "LAST_MODIFIED = ''Last-Modified''"

definition TIMESTAMP_ID_SEPARATOR :: string where
  "TIMESTAMP_ID_SEPARATOR = ''___''"

definition TRANSACTIONS_ROOT :: string where
  "TRANSACTIONS_ROOT = ''transactions/''"

text \<open>
  A pointer that may be nil is an option. The entity type \<open>any\<close> is the type parameter
  \<open>'a\<close>. The steps of a transaction are held by pointer in Go; no function below writes
  through such a pointer, so the list holds the steps themselves.
\<close>

record 'a ObjectAndETag =
  Object :: "'a option"
  ETag :: "string option"

record 'a TransactionStep =
  Type :: string
  ContentType :: string
  Path :: string
  InitialETag :: string
  InitialVersionId :: string
  UserMetadata :: "string \<rightharpoonup> string"
  Data :: "string option"
  Entity :: "'a option"
  Executed :: bool
  FinalETag :: "string option"
  FinalVersionId :: "string option"

record 'a Transaction =
  Id :: string
  Etag :: string
  StartMicroseconds :: int
  TimeoutMicroseconds :: int
  Steps :: "'a TransactionStep list"
  Cache :: "string \<rightharpoonup> 'a ObjectAndETag"
  State :: string

text \<open>
  The errors \<open>IsOk\<close> and \<open>AddStep\<close> return: the three error variables of the package
  and whatever \<open>json.Marshal\<close> reports.
\<close>

datatype error =
    TransactionAlreadyCommittedError
  | TransactionAlreadyRolledBackError
  | TransactionTimedOutError
  | MarshalError string

text \<open>\<open>uuid\<close> is the string \<open>uuid.New().String()\<close> returns, \<open>now\<close> the clock reading.\<close>

definition NewTransaction :: "string \<Rightarrow> Time \<Rightarrow> Duration \<Rightarrow> 'a Transaction" where
  "NewTransaction uuid now timeout =
     \<lparr>Id = uuid,
      Etag = ''*'',
      StartMicroseconds = UnixMicro now,
      TimeoutMicroseconds = UnixMicro (Time_Add now timeout),
      Steps = [],
      Cache = Map.empty,
      State = ''InProgress''\<rparr>"

definition IsExpired :: "Time \<Rightarrow> 'a Transaction \<Rightarrow> bool" where
  "IsExpired now t = (UnixMicro now > TimeoutMicroseconds t)"

definition IsOk :: "Time \<Rightarrow> 'a Transaction \<Rightarrow> error option outcome" where
  "IsOk now t =
     (if State t = ''Committing'' then Return (Some TransactionAlreadyCommittedError)
      else if State t = ''RollingBack'' then Return (Some TransactionAlreadyRolledBackError)
      else if State t \<noteq> ''InProgress''
        then Panic (''ADB-0014 Transaction is in an unknown state: '' @ State t)
      else if IsExpired now t then Return (Some TransactionTimedOutError)
      else Return None)"

definition GetPath :: "'a Transaction \<Rightarrow> string" where
  "GetPath t =
     TRANSACTIONS_ROOT @ Sprintf_d (StartMicroseconds t) @ TIMESTAMP_ID_SEPARATOR @ Id t"

definition GetRootPath :: "'a Transaction \<Rightarrow> string" where
  "GetRootPath t = TRANSACTIONS_ROOT"

text \<open>
  \<open>AddStep\<close> reads the clock twice: \<open>now1\<close> in \<open>IsOk\<close>, \<open>now2\<close> for the \<open>Last-Modified\<close>
  entry. \<open>marshal\<close> is \<open>json.Marshal\<close> on the entity. The result is the error returned
  (\<open>None\<close> for \<open>nil\<close>) and the transaction as the call leaves it.
\<close>

definition AddStep ::
  "('a \<Rightarrow> error + string) \<Rightarrow> Time \<Rightarrow> Time \<Rightarrow> string \<Rightarrow> string \<Rightarrow> string \<Rightarrow> string \<Rightarrow> 'a option
    \<Rightarrow> 'a Transaction \<Rightarrow> (error option \<times> 'a Transaction) outcome" where
  "AddStep marshal now1 now2 Type' ContentType' Path' InitialETag' Entity' t =
     (case IsOk now1 t of
        Panic msg \<Rightarrow> Panic msg
      | Return (Some err) \<Rightarrow> Return (Some err, t)
      | Return None \<Rightarrow>
          (let userMetadata = [TX_ID \<mapsto> Id t, LAST_MODIFIED \<mapsto> Sprintf_d (UnixMicro now2)] in
           case (case Entity' of None \<Rightarrow> Inr [] | Some e \<Rightarrow> marshal e) of
             Inl err \<Rightarrow> Return (Some err, t)
           | Inr data \<Rightarrow>
               (let step = \<lparr>Type = Type',
                            ContentType = ContentType',
                            Path = Path',
                            InitialETag = InitialETag',
                            InitialVersionId = [],
                            UserMetadata = userMetadata,
                            Data = Some data,
                            Entity = Entity',
                            Executed = False,
                            FinalETag = None,
                            FinalVersionId = None\<rparr>
                in Return (None, t\<lparr>Steps := Steps t @ [step]\<rparr>))))"

definition SetFinalETagAndVersionId ::
  "string option \<Rightarrow> string option \<Rightarrow> 'a TransactionStep \<Rightarrow> 'a TransactionStep" where
  "SetFinalETagAndVersionId finalETag finalVersionId step =
     step\<lparr>FinalETag := finalETag, FinalVersionId := finalVersionId\<rparr>"

text \<open>
  One call of \<open>AddStep\<close> with its two clock readings, and a run of such calls in which
  every call returns \<open>nil\<close>: the transaction the run ends in, \<open>None\<close> as soon as one call
  returns an error or panics.
\<close>

record 'a AddStepCall =
  callNow1 :: Time
  callNow2 :: Time
  callType :: string
  callContentType :: string
  callPath :: string
  callInitialETag :: string
  callEntity :: "'a option"

definition AddStepWith ::
  "('a \<Rightarrow> error + string) \<Rightarrow> 'a AddStepCall \<Rightarrow> 'a Transaction
    \<Rightarrow> (error option \<times> 'a Transaction) outcome" where
  "AddStepWith marshal c t =
     AddStep marshal (callNow1 c) (callNow2 c) (callType c) (callContentType c) (callPath c)
       (callInitialETag c) (callEntity c) t"

fun AddSteps ::
  "('a \<Rightarrow> error + string) \<Rightarrow> 'a AddStepCall list \<Rightarrow> 'a Transaction \<Rightarrow> 'a Transaction option" where
  "AddSteps marshal [] t = Some t"
| "AddSteps marshal (c # cs) t =
     (case AddStepWith marshal c t of
        Return (None, t') \<Rightarrow> AddSteps marshal cs t'
      | _ \<Rightarrow> None)"

section \<open>Predicates and reference definitions of the properties\<close>

text \<open>
  A name is separable when, followed by the separator \<open>___\<close>, the first separator starts
  right after the name: the name holds no \<open>___\<close> and does not end in an underscore.
\<close>

definition separable :: "string \<Rightarrow> bool" where
  "separable d \<longleftrightarrow> (\<forall>a b. d \<noteq> a @ ''___'' @ b) \<and> (d = [] \<or> last d \<noteq> CHR ''_'')"

text \<open>
  \<open>PathNoId\<close> in the order the specification gives: lower-case the field value, then pad
  it on the left with underscores to two bytes, then shard by the first two bytes. The
  code pads first and lower-cases after.
\<close>

definition PathNoId_spec :: "(string \<Rightarrow> string) \<Rightarrow> Index \<Rightarrow> string \<Rightarrow> string" where
  "PathNoId_spec unicodeLower i fieldValue =
     (let fieldValueLower = padLoop (strings_ToLower unicodeLower fieldValue) in
      Index_PathPrefix i @ ''/'' @ take 2 fieldValueLower @ ''/'' @ fieldValueLower)"

text \<open>The three bytes of U+212A KELVIN SIGN in UTF-8.\<close>

definition kelvinSign :: string where
  "kelvinSign = [CHR 0xE2, CHR 0x84, CHR 0xAA]"

text \<open>
  What a step appended by \<open>AddStep\<close> takes from the arguments of the call.
\<close>

definition stepMatches :: "'a TransactionStep \<Rightarrow> 'a AddStepCall \<Rightarrow> bool" where
  "stepMatches s c \<longleftrightarrow>
     Type s = callType c \<and> ContentType s = callContentType c \<and> Path s = callPath c \<and>
     InitialETag s = callInitialETag c \<and> Entity s = callEntity c \<and> \<not> Executed s"

section \<open>The state gate of a transaction\<close>

lemma UnixMicro_mono: "a \<le> b \<Longrightarrow> UnixMicro a \<le> UnixMicro b"
  unfolding UnixMicro_def by (rule zdiv_mono1) simp_all

text \<open>
  C2. \<open>IsOk\<close> returns no error exactly when the state is \<open>InProgress\<close> and the
  transaction has not expired. It returns \<open>TransactionAlreadyCommittedError\<close> exactly in
  state \<open>Committing\<close>, \<open>TransactionAlreadyRolledBackError\<close> exactly in state
  \<open>RollingBack\<close>, \<open>TransactionTimedOutError\<close> exactly in state \<open>InProgress\<close> past the
  deadline, never any other error, and it panics exactly when the state is none of the
  three. A transaction made by \<open>NewTransaction\<close> with a positive timeout gets no error at
  any instant from its creation up to creation plus timeout, and \<open>TransactionTimedOutError\<close>
  once the clock's microsecond reading is past its deadline.
\<close>

theorem IsOk_cases:
  "(IsOk now t = Return None \<longleftrightarrow> State t = ''InProgress'' \<and> \<not> IsExpired now t) \<and>
   (IsOk now t = Return (Some TransactionAlreadyCommittedError) \<longleftrightarrow> State t = ''Committing'') \<and>
   (IsOk now t = Return (Some TransactionAlreadyRolledBackError) \<longleftrightarrow> State t = ''RollingBack'') \<and>
   (IsOk now t = Return (Some TransactionTimedOutError) \<longleftrightarrow>
      State t = ''InProgress'' \<and> UnixMicro now > TimeoutMicroseconds t) \<and>
   ((\<exists>msg. IsOk now t = Panic msg) \<longleftrightarrow>
      State t \<notin> {''InProgress'', ''Committing'', ''RollingBack''}) \<and>
   IsOk now t \<noteq> Return (Some (MarshalError m)) \<and>
   (0 < timeout \<and> now0 \<le> now \<and> now \<le> Time_Add now0 timeout \<longrightarrow>
      IsOk now (NewTransaction uuid now0 timeout :: 'a Transaction) = Return None) \<and>
   (UnixMicro (Time_Add now0 timeout) < UnixMicro now \<longrightarrow>
      IsOk now (NewTransaction uuid now0 timeout :: 'a Transaction) =
        Return (Some TransactionTimedOutError))"
proof -
  have fresh: "IsOk now (NewTransaction uuid now0 timeout :: 'a Transaction) = Return None"
    if "now \<le> Time_Add now0 timeout"
    using UnixMicro_mono [OF that]
    by (simp add: IsOk_def NewTransaction_def IsExpired_def)
  have late: "IsOk now (NewTransaction uuid now0 timeout :: 'a Transaction) =
        Return (Some TransactionTimedOutError)"
    if "UnixMicro (Time_Add now0 timeout) < UnixMicro now"
    using that by (simp add: IsOk_def NewTransaction_def IsExpired_def)
  show ?thesis
    using fresh late by (auto simp: IsOk_def IsExpired_def)
qed

theorem IsOk_cases_witness:
  "IsOk 5000 (NewTransaction ''u'' 4000 3000 :: unit Transaction) = Return None \<and>
   IsOk 9000 (NewTransaction ''u'' 4000 3000 :: unit Transaction) =
     Return (Some TransactionTimedOutError) \<and>
   IsOk 9000 ((NewTransaction ''u'' 4000 3000 :: unit Transaction)\<lparr>State := ''Committing''\<rparr>) =
     Return (Some TransactionAlreadyCommittedError) \<and>
   (\<exists>msg. IsOk 5000 ((NewTransaction ''u'' 4000 3000 :: unit Transaction)\<lparr>State := ''Done''\<rparr>) = Panic msg)"
proof -
  let ?t = "NewTransaction ''u'' 4000 3000 :: unit Transaction"
  have h1: "(0::int) < 3000 \<and> (4000::int) \<le> 5000 \<and> 5000 \<le> Time_Add 4000 3000"
    by (simp add: Time_Add_def)
  have h2: "UnixMicro (Time_Add 4000 3000) < UnixMicro 9000"
    by (simp add: Time_Add_def UnixMicro_def)
  have h3: "State (?t\<lparr>State := ''Committing''\<rparr>) = ''Committing''"
    by simp
  have h4: "State (?t\<lparr>State := ''Done''\<rparr>) \<notin> {''InProgress'', ''Committing'', ''RollingBack''}"
    by simp
  have a: "IsOk 5000 ?t = Return None"
    using IsOk_cases [of 5000 ?t undefined 3000 4000 "''u''"] h1 by blast
  have b: "IsOk 9000 ?t = Return (Some TransactionTimedOutError)"
    using IsOk_cases [of 9000 ?t undefined 3000 4000 "''u''"] h2 by blast
  have c: "IsOk 9000 (?t\<lparr>State := ''Committing''\<rparr>) = Return (Some TransactionAlreadyCommittedError)"
    using IsOk_cases [of 9000 "?t\<lparr>State := ''Committing''\<rparr>"] h3 by blast
  have d: "\<exists>msg. IsOk 5000 (?t\<lparr>State := ''Done''\<rparr>) = Panic msg"
    using IsOk_cases [of 5000 "?t\<lparr>State := ''Done''\<rparr>"] h4 by blast
  from a b c d show ?thesis by blast
qed

text \<open>
  C10. \<open>IsOk\<close> looks at the state before the deadline: an expired transaction in state
  \<open>Committing\<close> gets \<open>TransactionAlreadyCommittedError\<close>, one in state \<open>RollingBack\<close> gets
  \<open>TransactionAlreadyRolledBackError\<close>, and \<open>TransactionTimedOutError\<close> is returned only
  in state \<open>InProgress\<close>.
\<close>

theorem IsOk_terminal_before_expiry:
  "(IsExpired now t \<and> State t = ''Committing'' \<longrightarrow>
      IsOk now t = Return (Some TransactionAlreadyCommittedError)) \<and>
   (IsExpired now t \<and> State t = ''RollingBack'' \<longrightarrow>
      IsOk now t = Return (Some TransactionAlreadyRolledBackError)) \<and>
   (IsOk now t = Return (Some TransactionTimedOutError) \<longrightarrow> State t = ''InProgress'')"
  by (auto simp: IsOk_def)

theorem IsOk_terminal_before_expiry_witness:
  "IsExpired 9000 ((NewTransaction ''u'' 4000 3000 :: unit Transaction)\<lparr>State := ''Committing''\<rparr>) \<and>
   IsOk 9000 ((NewTransaction ''u'' 4000 3000 :: unit Transaction)\<lparr>State := ''Committing''\<rparr>) =
     Return (Some TransactionAlreadyCommittedError) \<and>
   IsExpired 9000 ((NewTransaction ''u'' 4000 3000 :: unit Transaction)\<lparr>State := ''RollingBack''\<rparr>) \<and>
   IsOk 9000 ((NewTransaction ''u'' 4000 3000 :: unit Transaction)\<lparr>State := ''RollingBack''\<rparr>) =
     Return (Some TransactionAlreadyRolledBackError)"
proof -
  let ?t = "NewTransaction ''u'' 4000 3000 :: unit Transaction"
  have e1: "IsExpired 9000 (?t\<lparr>State := ''Committing''\<rparr>)"
    by (simp add: IsExpired_def NewTransaction_def Time_Add_def UnixMicro_def)
  have e2: "IsExpired 9000 (?t\<lparr>State := ''RollingBack''\<rparr>)"
    by (simp add: IsExpired_def NewTransaction_def Time_Add_def UnixMicro_def)
  have s1: "State (?t\<lparr>State := ''Committing''\<rparr>) = ''Committing''" by simp
  have s2: "State (?t\<lparr>State := ''RollingBack''\<rparr>) = ''RollingBack''" by simp
  have a: "IsOk 9000 (?t\<lparr>State := ''Committing''\<rparr>) = Return (Some TransactionAlreadyCommittedError)"
    using IsOk_terminal_before_expiry [of 9000 "?t\<lparr>State := ''Committing''\<rparr>"] e1 s1 by blast
  have b: "IsOk 9000 (?t\<lparr>State := ''RollingBack''\<rparr>) = Return (Some TransactionAlreadyRolledBackError)"
    using IsOk_terminal_before_expiry [of 9000 "?t\<lparr>State := ''RollingBack''\<rparr>"] e2 s2 by blast
  from e1 e2 a b show ?thesis by blast
qed


section \<open>Appending steps\<close>

lemma AddStep_IsOk_error:
  "IsOk now1 t = Return (Some err) \<Longrightarrow>
   AddStep marshal now1 now2 ty ct p et en t = Return (Some err, t)"
  by (simp add: AddStep_def)

lemma AddStep_error_unchanged:
  "AddStep marshal now1 now2 ty ct p et en t = Return (Some err, t') \<Longrightarrow> t' = t"
  by (auto simp: AddStep_def Let_def split: outcome.splits option.splits sum.splits)

text \<open>
  C3. \<open>AddStep\<close> is atomic on error. When \<open>IsOk\<close> returns an error, \<open>AddStep\<close> returns
  that error and the transaction is unchanged; when \<open>IsOk\<close> returns no error and
  \<open>json.Marshal\<close> fails on an entity that is not nil, \<open>AddStep\<close> returns that error and the
  transaction is unchanged. These are the only errors \<open>AddStep\<close> returns, and every call
  that returns an error leaves the transaction, its step list included, as it was.
\<close>

theorem AddStep_atomic_on_error:
  "(IsOk now1 t = Return (Some err) \<longrightarrow>
      AddStep marshal now1 now2 ty ct p et en t = Return (Some err, t)) \<and>
   (IsOk now1 t = Return None \<and> en = Some x \<and> marshal x = Inl err \<longrightarrow>
      AddStep marshal now1 now2 ty ct p et en t = Return (Some err, t)) \<and>
   (AddStep marshal now1 now2 ty ct p et en t = Return (Some err, t') \<longrightarrow>
      t' = t \<and> Steps t' = Steps t \<and>
      (IsOk now1 t = Return (Some err) \<or>
       (IsOk now1 t = Return None \<and> (\<exists>x. en = Some x \<and> marshal x = Inl err))))"
  by (auto simp: AddStep_def Let_def split: outcome.splits option.splits sum.splits)

theorem AddStep_atomic_on_error_witness:
  "AddStep (\<lambda>x::nat. Inl (MarshalError ''unsupported'')) 5000 5000 ''create'' ''application/json''
      ''shop/orders/data/1.json'' [] (Some 0)
      ((NewTransaction ''u'' 4000 3000)\<lparr>State := ''Committing''\<rparr>) =
     Return (Some TransactionAlreadyCommittedError,
             (NewTransaction ''u'' 4000 3000)\<lparr>State := ''Committing''\<rparr>) \<and>
   AddStep (\<lambda>x::nat. Inl (MarshalError ''unsupported'')) 5000 5000 ''create'' ''application/json''
      ''shop/orders/data/1.json'' [] (Some 0) (NewTransaction ''u'' 4000 3000) =
     Return (Some (MarshalError ''unsupported''), NewTransaction ''u'' 4000 3000)"
proof -
  let ?m = "\<lambda>x::nat. (Inl (MarshalError ''unsupported'') :: error + string)"
  let ?t = "NewTransaction ''u'' 4000 3000 :: nat Transaction"
  have h1: "IsOk 5000 (?t\<lparr>State := ''Committing''\<rparr>) = Return (Some TransactionAlreadyCommittedError)"
    by (simp add: IsOk_def)
  have h2: "IsOk 5000 ?t = Return None \<and> Some (0::nat) = Some 0 \<and> ?m 0 = Inl (MarshalError ''unsupported'')"
    by (simp add: IsOk_def IsExpired_def NewTransaction_def UnixMicro_def Time_Add_def)
  have a: "AddStep ?m 5000 5000 ''create'' ''application/json'' ''shop/orders/data/1.json'' [] (Some 0)
      (?t\<lparr>State := ''Committing''\<rparr>) =
     Return (Some TransactionAlreadyCommittedError, ?t\<lparr>State := ''Committing''\<rparr>)"
    using AddStep_atomic_on_error [of 5000 "?t\<lparr>State := ''Committing''\<rparr>"
        TransactionAlreadyCommittedError ?m 5000 "''create''" "''application/json''"
        "''shop/orders/data/1.json''" "[]" "Some 0"] h1 by blast
  have b: "AddStep ?m 5000 5000 ''create'' ''application/json'' ''shop/orders/data/1.json'' [] (Some 0) ?t =
     Return (Some (MarshalError ''unsupported''), ?t)"
    using AddStep_atomic_on_error [of 5000 ?t "MarshalError ''unsupported''" ?m 5000 "''create''"
        "''application/json''" "''shop/orders/data/1.json''" "[]" "Some 0" 0] h2 by blast
  from a b show ?thesis by blast
qed

text \<open>
  C9. A call of \<open>AddStep\<close> that returns \<open>nil\<close> changes the \<open>Steps\<close> field only, appending
  exactly one step: \<open>Id\<close>, \<open>Etag\<close>, \<open>StartMicroseconds\<close>, \<open>TimeoutMicroseconds\<close>, \<open>State\<close>
  and \<open>Cache\<close> are unchanged.
\<close>

theorem AddStep_frame:
  "AddStep marshal now1 now2 ty ct p et en t = Return (None, t') \<Longrightarrow>
   (\<exists>step. Steps t' = Steps t @ [step]) \<and>
   length (Steps t') = length (Steps t) + 1 \<and>
   t' = t\<lparr>Steps := Steps t'\<rparr> \<and>
   Id t' = Id t \<and> Etag t' = Etag t \<and>
   StartMicroseconds t' = StartMicroseconds t \<and>
   TimeoutMicroseconds t' = TimeoutMicroseconds t \<and>
   State t' = State t \<and> Cache t' = Cache t"
  by (auto simp: AddStep_def Let_def split: outcome.splits option.splits sum.splits)

theorem AddStep_frame_witness:
  "\<exists>t'. AddStep (\<lambda>x::nat. Inr ''0'') 5000 5000 ''create'' ''application/json''
      ''shop/orders/data/1.json'' [] (Some 0) (NewTransaction ''u'' 4000 3000) = Return (None, t') \<and>
    length (Steps t') = 1 \<and> Id t' = ''u'' \<and> Etag t' = ''*'' \<and> StartMicroseconds t' = 4 \<and>
    TimeoutMicroseconds t' = 7 \<and> State t' = ''InProgress'' \<and> Cache t' = Map.empty"
proof -
  let ?m = "\<lambda>x::nat. (Inr ''0'' :: error + string)"
  let ?t = "NewTransaction ''u'' 4000 3000 :: nat Transaction"
  obtain t' where r: "AddStep ?m 5000 5000 ''create'' ''application/json''
      ''shop/orders/data/1.json'' [] (Some 0) ?t = Return (None, t')"
    by (simp add: AddStep_def IsOk_def IsExpired_def NewTransaction_def UnixMicro_def Time_Add_def)
  from AddStep_frame [OF r] show ?thesis
    using r by (simp add: NewTransaction_def UnixMicro_def Time_Add_def)
qed

lemma AddStepWith_success:
  "AddStepWith marshal c t = Return (None, t') \<Longrightarrow>
   \<exists>s. Steps t' = Steps t @ [s] \<and> stepMatches s c"
  by (auto simp: AddStepWith_def AddStep_def Let_def stepMatches_def
      split: outcome.splits option.splits sum.splits)

lemma AddSteps_Cons_Some:
  "AddSteps marshal (c # cs) t = Some t' \<Longrightarrow>
   \<exists>t1. AddStepWith marshal c t = Return (None, t1) \<and> AddSteps marshal cs t1 = Some t'"
  by (auto split: outcome.splits option.splits prod.splits)

lemma AddSteps_steps:
  "AddSteps marshal cs t = Some t' \<Longrightarrow>
   \<exists>ss. Steps t' = Steps t @ ss \<and> length ss = length cs \<and>
        (\<forall>i<length cs. stepMatches (ss ! i) (cs ! i))"
proof (induction cs arbitrary: t)
  case Nil
  then show ?case by simp
next
  case (Cons c cs)
  from AddSteps_Cons_Some [OF Cons.prems] obtain t1 where
    one: "AddStepWith marshal c t = Return (None, t1)" and rest: "AddSteps marshal cs t1 = Some t'"
    by blast
  from AddStepWith_success [OF one] obtain s where
    s: "Steps t1 = Steps t @ [s]" "stepMatches s c" by blast
  from Cons.IH [OF rest] obtain ss where
    ss: "Steps t' = Steps t1 @ ss" "length ss = length cs"
      "\<forall>i<length cs. stepMatches (ss ! i) (cs ! i)" by blast
  have "\<forall>i<length (c # cs). stepMatches ((s # ss) ! i) ((c # cs) ! i)"
  proof (intro allI impI)
    fix i assume "i < length (c # cs)"
    then show "stepMatches ((s # ss) ! i) ((c # cs) ! i)"
      using s(2) ss(3) by (cases i) auto
  qed
  moreover have "Steps t' = Steps t @ (s # ss)" using s(1) ss(1) by simp
  moreover have "length (s # ss) = length (c # cs)" using ss(2) by simp
  ultimately show ?case by blast
qed

lemma AddSteps_take:
  "AddSteps marshal cs t = Some t' \<Longrightarrow> k \<le> length cs \<Longrightarrow>
   \<exists>tk. AddSteps marshal (take k cs) t = Some tk \<and> AddSteps marshal (drop k cs) tk = Some t'"
proof (induction cs arbitrary: t k)
  case Nil
  then show ?case by simp
next
  case (Cons c cs)
  show ?case
  proof (cases k)
    case 0
    with Cons.prems show ?thesis by simp
  next
    case (Suc j)
    from AddSteps_Cons_Some [OF Cons.prems(1)] obtain t1 where
      one: "AddStepWith marshal c t = Return (None, t1)" and rest: "AddSteps marshal cs t1 = Some t'"
      by blast
    from Cons.prems(2) Suc have "j \<le> length cs" by simp
    from Cons.IH [OF rest this] obtain tk where
      "AddSteps marshal (take j cs) t1 = Some tk" "AddSteps marshal (drop j cs) tk = Some t'"
      by blast
    with one Suc show ?thesis by simp
  qed
qed

lemma AddSteps_prefix:
  assumes "AddSteps marshal cs t = Some t'" and "k \<le> length cs"
  shows "\<exists>tk. AddSteps marshal (take k cs) t = Some tk \<and>
              Steps tk = take (length (Steps t) + k) (Steps t')"
proof -
  from AddSteps_take [OF assms] obtain tk where
    a: "AddSteps marshal (take k cs) t = Some tk" and b: "AddSteps marshal (drop k cs) tk = Some t'"
    by blast
  from AddSteps_steps [OF a] obtain ss where
    ss: "Steps tk = Steps t @ ss" "length ss = length (take k cs)" by blast
  from AddSteps_steps [OF b] obtain rs where
    rs: "Steps t' = Steps tk @ rs" by blast
  have "length (Steps tk) = length (Steps t) + k" using ss assms(2) by simp
  then have "take (length (Steps t) + k) (Steps t') = Steps tk" using rs by simp
  with a show ?thesis by auto
qed

text \<open>
  C7. In a run of \<open>N\<close> calls of \<open>AddStep\<close> that all return \<open>nil\<close>, the step list grows by
  \<open>N\<close>; after the first \<open>k\<close> calls it is the first \<open>k\<close> further entries of the final list,
  so no later call changes or removes a step appended before; the step appended by call
  \<open>i + 1\<close> (the last step right after that call) is the entry \<open>i\<close> places after the steps
  the run started with, built from that call's arguments; and on a transaction that
  starts with no step, as \<open>NewTransaction\<close> makes it, that is index \<open>i\<close>.
\<close>

theorem AddSteps_append_only:
  "AddSteps marshal cs t = Some t' \<Longrightarrow>
   length (Steps t') = length (Steps t) + length cs \<and>
   (\<forall>k\<le>length cs. \<exists>tk. AddSteps marshal (take k cs) t = Some tk \<and>
        Steps tk = take (length (Steps t) + k) (Steps t')) \<and>
   (\<forall>i<length cs. \<exists>ti. AddSteps marshal (take (Suc i) cs) t = Some ti \<and>
        Steps t' ! (length (Steps t) + i) = last (Steps ti) \<and>
        stepMatches (Steps t' ! (length (Steps t) + i)) (cs ! i)) \<and>
   (Steps t = [] \<longrightarrow> (\<forall>i<length cs. stepMatches (Steps t' ! i) (cs ! i)))"
proof -
  assume run: "AddSteps marshal cs t = Some t'"
  from AddSteps_steps [OF run] obtain ss where
    ss: "Steps t' = Steps t @ ss" "length ss = length cs"
      "\<forall>i<length cs. stepMatches (ss ! i) (cs ! i)" by blast
  have len: "length (Steps t') = length (Steps t) + length cs" using ss by simp
  have pre: "\<forall>k\<le>length cs. \<exists>tk. AddSteps marshal (take k cs) t = Some tk \<and>
        Steps tk = take (length (Steps t) + k) (Steps t')"
    using AddSteps_prefix [OF run] by blast
  have at: "\<forall>i<length cs. stepMatches (Steps t' ! (length (Steps t) + i)) (cs ! i)"
    using ss by (simp add: nth_append)
  have ith: "\<forall>i<length cs. \<exists>ti. AddSteps marshal (take (Suc i) cs) t = Some ti \<and>
        Steps t' ! (length (Steps t) + i) = last (Steps ti) \<and>
        stepMatches (Steps t' ! (length (Steps t) + i)) (cs ! i)"
  proof (intro allI impI)
    fix i assume i: "i < length cs"
    then have "Suc i \<le> length cs" by simp
    from AddSteps_prefix [OF run this] obtain ti where
      ti: "AddSteps marshal (take (Suc i) cs) t = Some ti"
        "Steps ti = take (length (Steps t) + Suc i) (Steps t')" by blast
    have l: "length (Steps t) + Suc i \<le> length (Steps t')" using len i by simp
    have "last (Steps ti) = Steps t' ! (length (Steps t) + i)"
      unfolding ti(2) using l
      by (simp add: last_conv_nth take_Suc_conv_app_nth)
    with ti(1) at i show "\<exists>ti. AddSteps marshal (take (Suc i) cs) t = Some ti \<and>
        Steps t' ! (length (Steps t) + i) = last (Steps ti) \<and>
        stepMatches (Steps t' ! (length (Steps t) + i)) (cs ! i)" by auto
  qed
  have fresh: "Steps t = [] \<longrightarrow> (\<forall>i<length cs. stepMatches (Steps t' ! i) (cs ! i))"
    using at by auto
  from len pre ith fresh show ?thesis by blast
qed


theorem AddSteps_append_only_witness:
  "\<exists>t'. AddSteps (\<lambda>x::nat. Inr ''0'')
       [\<lparr>callNow1 = 5000, callNow2 = 5001, callType = ''create'', callContentType = ''application/json'',
          callPath = ''shop/orders/data/1.json'', callInitialETag = [], callEntity = Some 0\<rparr>,
        \<lparr>callNow1 = 6000, callNow2 = 6001, callType = ''delete'', callContentType = ''application/json'',
          callPath = ''shop/orders/data/2.json'', callInitialETag = ''e'', callEntity = None\<rparr>]
       (NewTransaction ''u'' 4000 3000) = Some t' \<and>
     length (Steps t') = 2 \<and>
     Path (Steps t' ! 0) = ''shop/orders/data/1.json'' \<and>
     Path (Steps t' ! 1) = ''shop/orders/data/2.json''"
proof -
  let ?m = "\<lambda>x::nat. (Inr ''0'' :: error + string)"
  let ?c1 = "\<lparr>callNow1 = 5000, callNow2 = 5001, callType = ''create'',
      callContentType = ''application/json'', callPath = ''shop/orders/data/1.json'',
      callInitialETag = [], callEntity = Some (0::nat)\<rparr>"
  let ?c2 = "\<lparr>callNow1 = 6000, callNow2 = 6001, callType = ''delete'',
      callContentType = ''application/json'', callPath = ''shop/orders/data/2.json'',
      callInitialETag = ''e'', callEntity = (None :: nat option)\<rparr>"
  let ?t = "NewTransaction ''u'' 4000 3000 :: nat Transaction"
  obtain t' where r: "AddSteps ?m [?c1, ?c2] ?t = Some t'"
    by (simp add: AddStepWith_def AddStep_def IsOk_def IsExpired_def NewTransaction_def
        UnixMicro_def Time_Add_def)
  have e: "Steps ?t = []" by (simp add: NewTransaction_def)
  from AddSteps_append_only [OF r] e have
    l: "length (Steps t') = 2" and
    m: "\<forall>i<length [?c1, ?c2]. stepMatches (Steps t' ! i) ([?c1, ?c2] ! i)" by simp_all
  from m have "stepMatches (Steps t' ! 0) ?c1" by auto
  moreover from m have "stepMatches (Steps t' ! 1) ?c2" by auto
  ultimately show ?thesis using r l by (auto simp: stepMatches_def)
qed

section \<open>Record paths from index entries\<close>

text \<open>
  C8. \<open>PathFromIndex\<close> fails, with the \<open>ADB-0032\<close> table mismatch error, exactly when the
  tuple's database differs from the table's database or the tuple's table differs from
  the table's name; otherwise it returns the record path of the tuple's id, which is
  \<open>Path\<close> of that id.
\<close>

theorem Table_PathFromIndex_cases:
  "(Table_PathFromIndex t tuple = Inl (TableMismatch tuple) \<longleftrightarrow>
      tupDatabase tuple \<noteq> Database t \<or> tupTable tuple \<noteq> Name t) \<and>
   ((\<exists>e. Table_PathFromIndex t tuple = Inl e) \<longleftrightarrow>
      tupDatabase tuple \<noteq> Database t \<or> tupTable tuple \<noteq> Name t) \<and>
   (tupDatabase tuple = Database t \<and> tupTable tuple = Name t \<longrightarrow>
      Table_PathFromIndex t tuple = Inr (Table_Path t (tupId tuple)))"
  by (auto simp: Table_PathFromIndex_def Table_Path_def)

theorem Table_PathFromIndex_cases_witness:
  "Table_PathFromIndex (MkTable ''d2'' ''orders'' [])
      \<lparr>tupDatabase = ''d1'', tupTable = ''orders'', tupId = ''123''\<rparr> =
     Inl (TableMismatch \<lparr>tupDatabase = ''d1'', tupTable = ''orders'', tupId = ''123''\<rparr>) \<and>
   Table_PathFromIndex (MkTable ''shop'' ''orders'' [])
      \<lparr>tupDatabase = ''shop'', tupTable = ''orders'', tupId = ''123''\<rparr> =
     Inr ''shop/orders/data/123.json''"
proof -
  let ?x = "\<lparr>tupDatabase = ''d1'', tupTable = ''orders'', tupId = ''123''\<rparr>"
  let ?y = "\<lparr>tupDatabase = ''shop'', tupTable = ''orders'', tupId = ''123''\<rparr>"
  have h1: "tupDatabase ?x \<noteq> Database (MkTable ''d2'' ''orders'' [])" by simp
  have h2: "tupDatabase ?y = Database (MkTable ''shop'' ''orders'' []) \<and>
            tupTable ?y = Name (MkTable ''shop'' ''orders'' [])" by simp
  have a: "Table_PathFromIndex (MkTable ''d2'' ''orders'' []) ?x = Inl (TableMismatch ?x)"
    using Table_PathFromIndex_cases [of "MkTable ''d2'' ''orders'' []" ?x] h1 by blast
  have b: "Table_PathFromIndex (MkTable ''shop'' ''orders'' []) ?y =
      Inr (Table_Path (MkTable ''shop'' ''orders'' []) (tupId ?y))"
    using Table_PathFromIndex_cases [of "MkTable ''shop'' ''orders'' []" ?y] h2 by blast
  from a b show ?thesis by (simp add: Table_Path_def Table_pathPrefix_def)
qed

section \<open>Searching and splitting strings\<close>

lemma Index_range: "strings_Index s sep = -1 \<or> (0 \<le> strings_Index s sep \<and> strings_Index s sep \<le> int (length s))"
  by (induction s) (auto simp: Let_def)

lemma Index_none:
  "sep \<noteq> [] \<Longrightarrow> strings_Index s sep = -1 \<Longrightarrow> take (length sep) (drop k s) \<noteq> sep"
proof (induction s arbitrary: k)
  case Nil
  then show ?case by simp
next
  case (Cons c cs)
  from Cons.prems have h0: "take (length sep) (c # cs) \<noteq> sep"
    by (auto simp: Let_def split: if_splits)
  from Cons.prems have h1: "strings_Index cs sep = -1"
    using Index_range [of cs sep] by (auto simp: Let_def split: if_splits)
  show ?case
  proof (cases k)
    case 0
    with h0 show ?thesis by simp
  next
    case (Suc j)
    with Cons.IH [OF Cons.prems(1) h1, of j] show ?thesis by simp
  qed
qed

lemma Index_found:
  "sep \<noteq> [] \<Longrightarrow> 0 \<le> strings_Index s sep \<Longrightarrow>
   take (length sep) (drop (nat (strings_Index s sep)) s) = sep \<and>
   (\<forall>k < nat (strings_Index s sep). take (length sep) (drop k s) \<noteq> sep)"
proof (induction s)
  case Nil
  then show ?case by simp
next
  case (Cons c cs)
  show ?case
  proof (cases "take (length sep) (c # cs) = sep")
    case True
    then show ?thesis by simp
  next
    case False
    with Cons.prems have h1: "0 \<le> strings_Index cs sep"
      by (auto simp: Let_def split: if_splits)
    with False have e: "strings_Index (c # cs) sep = strings_Index cs sep + 1"
      by (auto simp: Let_def)
    have n: "nat (strings_Index cs sep + 1) = Suc (nat (strings_Index cs sep))"
      using h1 by simp
    from Cons.IH [OF Cons.prems(1) h1] have ih1: "take (length sep) (drop (nat (strings_Index cs sep)) cs) = sep"
      and ih2: "\<And>k. k < nat (strings_Index cs sep) \<Longrightarrow> take (length sep) (drop k cs) \<noteq> sep"
      by auto
    have "\<And>k. k < Suc (nat (strings_Index cs sep)) \<Longrightarrow> take (length sep) (drop k (c # cs)) \<noteq> sep"
    proof -
      fix k assume "k < Suc (nat (strings_Index cs sep))"
      then show "take (length sep) (drop k (c # cs)) \<noteq> sep"
        using False ih2 by (cases k) auto
    qed
    then show ?thesis unfolding e n using ih1 by simp
  qed
qed

lemma Index_first:
  assumes "sep \<noteq> []" and "take (length sep) (drop m s) = sep"
    and "\<And>k. k < m \<Longrightarrow> take (length sep) (drop k s) \<noteq> sep"
  shows "strings_Index s sep = int m"
proof -
  have nn: "strings_Index s sep \<noteq> -1"
    using Index_none [OF assms(1), of s m] assms(2) by auto
  then have ge: "0 \<le> strings_Index s sep" using Index_range [of s sep] by auto
  from Index_found [OF assms(1) ge] have
    a: "take (length sep) (drop (nat (strings_Index s sep)) s) = sep" and
    b: "\<And>k. k < nat (strings_Index s sep) \<Longrightarrow> take (length sep) (drop k s) \<noteq> sep" by auto
  have "\<not> m < nat (strings_Index s sep)" using b assms(2) by blast
  moreover have "\<not> nat (strings_Index s sep) < m" using assms(3) a by blast
  ultimately show ?thesis using ge by linarith
qed


lemma LastIndex_range: "- 1 \<le> strings_LastIndex s sep"
  by (induction s) (auto simp: Let_def)

lemma LastIndex_absent: "c \<notin> set s \<Longrightarrow> strings_LastIndex s [c] = - 1"
  by (induction s) (auto simp: Let_def)

lemma LastIndex_last:
  "c \<notin> set f \<Longrightarrow> strings_LastIndex (p @ c # f) [c] = int (length p)"
proof (induction p)
  case Nil
  then show ?case by (simp add: Let_def LastIndex_absent)
next
  case (Cons a p)
  then show ?case by (simp add: Let_def)
qed

lemma afterLastSlash_absent: "CHR ''/'' \<notin> set p \<Longrightarrow> afterLastSlash p = p"
  by (simp add: afterLastSlash_def LastIndex_absent)

lemma afterLastSlash_append:
  "CHR ''/'' \<notin> set f \<Longrightarrow> afterLastSlash (p @ ''/'' @ f) = f"
proof -
  assume f: "CHR ''/'' \<notin> set f"
  have n: "nat (int (length p) + 1) = Suc (length p)" by simp
  show ?thesis
    using LastIndex_last [OF f, of p]
    by (simp add: afterLastSlash_def Let_def n)
qed

lemma afterLastSlash_spec:
  "\<exists>pre. p = pre @ afterLastSlash p \<and> CHR ''/'' \<notin> set (afterLastSlash p) \<and>
         (pre = [] \<or> last pre = CHR ''/'')"
proof (cases "CHR ''/'' \<in> set p")
  case False
  then show ?thesis by (simp add: afterLastSlash_absent)
next
  case True
  from split_list_last [OF this] obtain ys zs where
    p: "p = ys @ CHR ''/'' # zs" and z: "CHR ''/'' \<notin> set zs" by blast
  have "afterLastSlash p = zs"
    using afterLastSlash_append [OF z, of ys] p by simp
  moreover have "p = (ys @ ''/'') @ zs" using p by simp
  ultimately show ?thesis using z by (metis last_snoc)
qed


lemma drop_append_le: "n \<le> length xs \<Longrightarrow> drop n (xs @ ys) = drop n xs @ ys"
  by simp

lemma Index_bound:
  assumes "sep \<noteq> []" and "0 \<le> strings_Index s sep"
  shows "nat (strings_Index s sep) + length sep \<le> length s"
proof -
  from Index_found [OF assms] have
    "length (take (length sep) (drop (nat (strings_Index s sep)) s)) = length sep" by simp
  then show ?thesis using assms(1) by (cases sep) (auto simp: min_def split: if_splits)
qed

lemma Index_decomp:
  assumes "sep \<noteq> []" and "0 \<le> strings_Index s sep"
  shows "s = take (nat (strings_Index s sep)) s @ sep @
             drop (nat (strings_Index s sep) + length sep) s"
proof -
  let ?m = "nat (strings_Index s sep)"
  from Index_found [OF assms] have t: "take (length sep) (drop ?m s) = sep" by simp
  have "take (length sep) (drop ?m s) @ drop (length sep) (drop ?m s) = drop ?m s"
    by (rule append_take_drop_id)
  then have "drop ?m s = sep @ drop (?m + length sep) s"
    unfolding t by (simp add: add.commute)
  then have "take ?m s @ drop ?m s = take ?m s @ sep @ drop (?m + length sep) s" by simp
  then show ?thesis by simp
qed

lemma Index_exists:
  assumes "sep \<noteq> []" and "s = a @ sep @ b"
  shows "0 \<le> strings_Index s sep \<and> nat (strings_Index s sep) \<le> length a"
proof -
  have occ: "take (length sep) (drop (length a) s) = sep" using assms(2) by simp
  have "strings_Index s sep \<noteq> - 1"
    using Index_none [OF assms(1), of s "length a"] occ by blast
  then have ge: "0 \<le> strings_Index s sep" using Index_range [of s sep] by auto
  from Index_found [OF assms(1) ge] occ have "\<not> length a < nat (strings_Index s sep)"
    by blast
  with ge show ?thesis by simp
qed

lemma genSplit_none: "strings_Index s sep < 0 \<Longrightarrow> genSplit s sep k = [s]"
  by (cases k) (simp_all add: Let_def)

lemma SplitN_3:
  "strings_SplitN s ''___'' 3 =
     (let m1 = strings_Index s ''___'' in
      if m1 < 0 then [s]
      else (let rest = drop (nat m1 + 3) s; m2 = strings_Index rest ''___'' in
            if m2 < 0 then [take (nat m1) s, rest]
            else [take (nat m1) s, take (nat m2) rest, drop (nat m2 + 3) rest]))"
proof (cases "strings_Index s ''___'' < 0")
  case True
  then show ?thesis by (simp add: strings_SplitN_def genSplit_none Let_def)
next
  case False
  then have ge: "0 \<le> strings_Index s ''___''" by simp
  have "nat (strings_Index s ''___'') + length ''___'' \<le> length s"
    by (rule Index_bound [OF _ ge]) simp
  then have "3 \<le> length s" by simp
  then have "min 3 (length s + 1) - 1 = Suc (Suc 0)" by simp
  then have e: "strings_SplitN s ''___'' 3 = genSplit s ''___'' (Suc (Suc 0))"
    unfolding strings_SplitN_def by simp
  show ?thesis
    unfolding e using False by (simp add: Let_def genSplit_none numeral_3_eq_3)
qed

lemma FromPath_unfold:
  "DatabaseTableIdTupleFromPath p =
     (let fn = afterLastSlash p; m1 = strings_Index fn ''___'' in
      if m1 < 0 then Inl (MalformedPath fn)
      else (let rest = drop (nat m1 + 3) fn; m2 = strings_Index rest ''___'' in
            if m2 < 0 then Inl (MalformedPath fn)
            else Inr \<lparr>tupDatabase = take (nat m1) fn, tupTable = take (nat m2) rest,
                      tupId = drop (nat m2 + 3) rest\<rparr>))"
  by (simp add: DatabaseTableIdTupleFromPath_def SplitN_3 Let_def)

lemma FromPath_error:
  "DatabaseTableIdTupleFromPath p = Inl e \<Longrightarrow> e = MalformedPath (afterLastSlash p)"
  by (auto simp: FromPath_unfold Let_def split: if_splits)

lemma FromPath_parts:
  assumes "DatabaseTableIdTupleFromPath p = Inr tup"
  shows "afterLastSlash p = tupDatabase tup @ ''___'' @ tupTable tup @ ''___'' @ tupId tup"
proof -
  let ?fn = "afterLastSlash p"
  let ?m1 = "strings_Index ?fn ''___''"
  let ?rest = "drop (nat ?m1 + 3) ?fn"
  let ?m2 = "strings_Index ?rest ''___''"
  from assms have m1: "0 \<le> ?m1" and m2: "0 \<le> ?m2"
    and tup: "tup = \<lparr>tupDatabase = take (nat ?m1) ?fn, tupTable = take (nat ?m2) ?rest,
                      tupId = drop (nat ?m2 + 3) ?rest\<rparr>"
    by (auto simp: FromPath_unfold Let_def split: if_splits)
  have a: "?fn = take (nat ?m1) ?fn @ ''___'' @ ?rest"
    using Index_decomp [OF _ m1] by (simp add: numeral_3_eq_3)
  have b: "?rest = take (nat ?m2) ?rest @ ''___'' @ drop (nat ?m2 + 3) ?rest"
    using Index_decomp [OF _ m2] by (simp add: numeral_3_eq_3)
  show ?thesis using a b tup by simp
qed

lemma FromPath_succeeds:
  assumes "afterLastSlash p = a @ ''___'' @ b @ ''___'' @ c"
  shows "\<exists>tup. DatabaseTableIdTupleFromPath p = Inr tup"
proof -
  let ?fn = "afterLastSlash p"
  let ?m1 = "strings_Index ?fn ''___''"
  let ?rest = "drop (nat ?m1 + 3) ?fn"
  have "?fn = a @ ''___'' @ (b @ ''___'' @ c)" using assms by simp
  from Index_exists [OF _ this] have m1: "0 \<le> ?m1" "nat ?m1 \<le> length a" by simp_all
  have "?fn = (a @ ''___'' @ b) @ ''___'' @ c" using assms by simp
  then have "?rest = drop (nat ?m1 + 3) ((a @ ''___'' @ b) @ ''___'' @ c)" by simp
  also have "\<dots> = drop (nat ?m1 + 3) (a @ ''___'' @ b) @ ''___'' @ c"
    by (rule drop_append_le) (use m1(2) in simp)
  finally have "?rest = drop (nat ?m1 + 3) (a @ ''___'' @ b) @ ''___'' @ c" .
  from Index_exists [OF _ this] have "0 \<le> strings_Index ?rest ''___''" by simp
  with m1(1) show ?thesis by (simp add: FromPath_unfold Let_def)
qed


lemma occ_length: "take 3 (drop k xs) = ''___'' \<Longrightarrow> k + 3 \<le> length xs"
proof -
  assume "take 3 (drop k xs) = ''___''"
  then have "length (take 3 (drop k xs)) = 3" by simp
  then show ?thesis by (simp add: min_def split: if_splits)
qed

lemma occ_chars:
  assumes "take 3 (drop k xs) = ''___''" and "j < 3"
  shows "xs ! (k + j) = CHR ''_''"
proof -
  from occ_length [OF assms(1)] have l: "k + 3 \<le> length xs" .
  have "take 3 (drop k xs) ! j = xs ! (k + j)" using assms(2) l by simp
  moreover have "''___'' ! j = CHR ''_''"
    using assms(2) by (auto simp: numeral_3_eq_3 less_Suc_eq)
  ultimately show ?thesis using assms(1) by simp
qed

lemma occ_decomp:
  assumes "take 3 (drop k xs) = ''___''"
  shows "xs = take k xs @ ''___'' @ drop (k + 3) xs"
proof -
  have "take 3 (drop k xs) @ drop 3 (drop k xs) = drop k xs"
    by (rule append_take_drop_id)
  then have "drop k xs = ''___'' @ drop (k + 3) xs"
    unfolding assms by (simp add: add.commute)
  then have "take k xs @ drop k xs = take k xs @ ''___'' @ drop (k + 3) xs" by simp
  then show ?thesis by simp
qed

lemma occ_in_prefix:
  assumes "take 3 (drop k (x @ y)) = ''___''" and "k + 3 \<le> length x"
  shows "\<exists>a b. x = a @ ''___'' @ b"
proof -
  have "take 3 (drop k (x @ y)) = take 3 (drop k x)" using assms(2) by simp
  with assms(1) have "take 3 (drop k x) = ''___''" by simp
  from occ_decomp [OF this] show ?thesis by blast
qed


lemma separable_no_early_occ:
  assumes "separable d" and "k < length d"
  shows "take 3 (drop k (d @ ''___'' @ r)) \<noteq> ''___''"
proof
  assume occ: "take 3 (drop k (d @ ''___'' @ r)) = ''___''"
  show False
  proof (cases "k + 3 \<le> length d")
    case True
    from occ_in_prefix [OF occ True] assms(1) show False
      by (auto simp: separable_def)
  next
    case False
    with assms(2) have j: "length d - 1 - k < 3" and kj: "k + (length d - 1 - k) = length d - 1"
      by simp_all
    from occ_chars [OF occ j] have "(d @ ''___'' @ r) ! (length d - 1) = CHR ''_''"
      unfolding kj .
    moreover have "length d - 1 < length d" using assms(2) by simp
    then have "(d @ ''___'' @ r) ! (length d - 1) = d ! (length d - 1)"
      by (rule nth_append_left)
    moreover have "d \<noteq> []" using assms(2) by auto
    ultimately have "last d = CHR ''_''" by (simp add: last_conv_nth)
    with \<open>d \<noteq> []\<close> assms(1) show False by (simp add: separable_def)
  qed
qed

lemma Index_separable:
  assumes "separable d"
  shows "strings_Index (d @ ''___'' @ r) ''___'' = int (length d)"
proof (rule Index_first)
  show "''___'' \<noteq> []" by simp
  show "take (length ''___'') (drop (length d) (d @ ''___'' @ r)) = ''___''" by simp
  fix k assume "k < length d"
  from separable_no_early_occ [OF assms this, of r]
  show "take (length ''___'') (drop k (d @ ''___'' @ r)) \<noteq> ''___''"
    by (simp add: numeral_3_eq_3)
qed

lemma separable_if_no_early_occ:
  assumes "\<And>k. k < length d \<Longrightarrow> take 3 (drop k (d @ ''___'' @ r)) \<noteq> ''___''"
  shows "separable d"
proof -
  have a: "d \<noteq> a @ ''___'' @ b" for a b
  proof
    assume d: "d = a @ ''___'' @ b"
    then have "length a < length d" by simp
    from assms [OF this] show False unfolding d by simp
  qed
  have b: "d = [] \<or> last d \<noteq> CHR ''_''"
  proof (rule ccontr)
    assume "\<not> (d = [] \<or> last d \<noteq> CHR ''_'')"
    then have ne: "d \<noteq> []" and l: "last d = CHR ''_''" by simp_all
    from ne l have d: "d = butlast d @ ''_''"
      by (metis append_butlast_last_id)
    have k: "length (butlast d) < length d" using ne by simp
    have "drop (length (butlast d)) (d @ ''___'' @ r) = ''_'' @ ''___'' @ r"
      by (subst d) simp
    then have "take 3 (drop (length (butlast d)) (d @ ''___'' @ r)) = ''___''" by simp
    with assms [OF k] show False by simp
  qed
  from a b show ?thesis unfolding separable_def by blast
qed

lemma Index_take_separable:
  assumes "0 \<le> strings_Index (d @ ''___'' @ r) ''___''"
    and "take (nat (strings_Index (d @ ''___'' @ r) ''___'')) (d @ ''___'' @ r) = d"
  shows "separable d \<and> nat (strings_Index (d @ ''___'' @ r) ''___'') = length d"
proof -
  let ?f = "d @ ''___'' @ r"
  let ?m = "nat (strings_Index ?f ''___'')"
  have "?m + length ''___'' \<le> length ?f"
    by (rule Index_bound [OF _ assms(1)]) simp
  then have "length (take ?m ?f) = ?m" by simp
  with assms(2) have m: "?m = length d" by simp
  have "\<forall>k<?m. take (length ''___'') (drop k ?f) \<noteq> ''___''"
    using Index_found [OF _ assms(1)] by simp
  then have "\<And>k. k < length d \<Longrightarrow> take 3 (drop k ?f) \<noteq> ''___''"
    unfolding m by (simp add: numeral_3_eq_3)
  from separable_if_no_early_occ [OF this] m show ?thesis by simp
qed

lemma separable_no_underscore:
  assumes "CHR ''_'' \<notin> set d"
  shows "separable d"
proof -
  have "d \<noteq> a @ ''___'' @ b" for a b using assms by auto
  moreover have "d = [] \<or> last d \<noteq> CHR ''_''"
    using assms last_in_set [of d] by metis
  ultimately show ?thesis unfolding separable_def by blast
qed

lemma occ_not_in_suffix:
  assumes "take 3 (drop k (x @ y)) = ''___''" and "CHR ''_'' \<notin> set y"
  shows "k + 3 \<le> length x"
proof (rule ccontr)
  assume n: "\<not> k + 3 \<le> length x"
  define j where "j = (if length x \<le> k then 0 else length x - k)"
  have j: "j < 3" and ge: "length x \<le> k + j" using n by (auto simp: j_def)
  from occ_length [OF assms(1)] j have lt: "k + j < length (x @ y)" by simp
  from occ_chars [OF assms(1) j] have "(x @ y) ! (k + j) = CHR ''_''" .
  moreover have "(x @ y) ! (k + j) = y ! (k + j - length x)"
    using ge by (simp add: nth_append)
  moreover have "k + j - length x < length y" using lt ge by simp
  ultimately have "CHR ''_'' \<in> set y" by (metis nth_mem)
  with assms(2) show False by simp
qed

lemma afterLastSlash_skip: "afterLastSlash (x @ ''/'' @ y) = afterLastSlash y"
proof (cases "CHR ''/'' \<in> set y")
  case False
  then show ?thesis
    using afterLastSlash_append [of y x] by (simp add: afterLastSlash_absent)
next
  case True
  from split_list_last [OF this] obtain ys zs where
    y: "y = ys @ CHR ''/'' # zs" and z: "CHR ''/'' \<notin> set zs" by blast
  have "afterLastSlash ((x @ ''/'' @ ys) @ ''/'' @ zs) = zs"
    by (rule afterLastSlash_append [OF z])
  moreover have "afterLastSlash (ys @ ''/'' @ zs) = zs"
    by (rule afterLastSlash_append [OF z])
  ultimately show ?thesis unfolding y by simp
qed

lemma afterLastSlash_length: "length (afterLastSlash p) \<le> length p"
proof -
  from afterLastSlash_spec [of p] obtain pre where "p = pre @ afterLastSlash p" by blast
  then have "length p = length pre + length (afterLastSlash p)"
    by (metis length_append)
  then show ?thesis by simp
qed

lemma Table_Path_file: "afterLastSlash (Table_Path t ident) = afterLastSlash (ident @ ''.json'')"
proof -
  have "Table_Path t ident = (Database t @ ''/'' @ Name t @ ''/data'') @ ''/'' @ (ident @ ''.json'')"
    by (simp add: Table_Path_def Table_pathPrefix_def)
  then show ?thesis by (simp only: afterLastSlash_skip)
qed

lemma Table_Path_Id_shorter:
  assumes "DatabaseTableIdTupleFromPath (Table_Path t ident) = Inr tup"
  shows "length (tupId tup) < length ident"
proof -
  from FromPath_parts [OF assms] have
    "afterLastSlash (ident @ ''.json'') =
       tupDatabase tup @ ''___'' @ tupTable tup @ ''___'' @ tupId tup"
    unfolding Table_Path_file .
  then have "length (afterLastSlash (ident @ ''.json'')) =
      length (tupDatabase tup) + length (tupTable tup) + length (tupId tup) + 6" by simp
  moreover have "length (afterLastSlash (ident @ ''.json'')) \<le> length ident + 5"
    using afterLastSlash_length [of "ident @ ''.json''"] by simp
  ultimately show ?thesis by linarith
qed

lemma Table_Path_malformed:
  assumes "\<forall>a b. ident \<noteq> a @ ''___'' @ b"
  shows "DatabaseTableIdTupleFromPath (Table_Path t ident) =
         Inl (MalformedPath (afterLastSlash (ident @ ''.json'')))"
proof -
  let ?fn = "afterLastSlash (ident @ ''.json'')"
  have "strings_Index ?fn ''___'' < 0"
  proof (rule ccontr)
    assume "\<not> strings_Index ?fn ''___'' < 0"
    then have ge: "0 \<le> strings_Index ?fn ''___''" by simp
    from Index_decomp [OF _ ge] obtain a b where fn: "?fn = a @ ''___'' @ b" by blast
    from afterLastSlash_spec [of "ident @ ''.json''"] obtain pre where
      "ident @ ''.json'' = pre @ ?fn" by blast
    then have e: "ident @ ''.json'' = (pre @ a) @ ''___'' @ b" using fn by simp
    have occ: "take 3 (drop (length (pre @ a)) (ident @ ''.json'')) = ''___''"
      unfolding e by simp
    have "length (pre @ a) + 3 \<le> length ident"
      by (rule occ_not_in_suffix [OF occ]) simp
    from occ_in_prefix [OF occ this] assms show False by blast
  qed
  then show ?thesis by (simp add: FromPath_unfold Table_Path_file Let_def)
qed

section \<open>Padding and lower-casing field values\<close>

lemma padLoop_replicate: "padLoop s = replicate (2 - length s) (CHR ''_'') @ s"
proof (induction s rule: padLoop.induct)
  case (1 fieldValue)
  show ?case
  proof (cases "length fieldValue < 2")
    case True
    then have "2 - length fieldValue = Suc (2 - length (''_'' @ fieldValue))" by simp
    then have "replicate (2 - length fieldValue) (CHR ''_'') @ fieldValue =
        replicate (2 - length (''_'' @ fieldValue)) (CHR ''_'') @ ''_'' @ fieldValue"
      by (simp add: replicate_app_Cons_same)
    with True "1.IH" show ?thesis by (subst padLoop.simps) simp
  next
    case False
    then show ?thesis by (subst padLoop.simps) simp
  qed
qed

lemma padLoop_length: "2 \<le> length (padLoop s)"
  by (simp add: padLoop_replicate)

lemma padLoop_long: "2 \<le> length s \<Longrightarrow> padLoop s = s"
  by (subst padLoop.simps) simp

lemma lowerByte_underscore: "lowerByte (CHR ''_'') = CHR ''_''"
  by (simp add: lowerByte_def)

lemma padLoop_map_lower: "map lowerByte (padLoop s) = padLoop (map lowerByte s)"
  by (simp only: padLoop_replicate map_append map_replicate lowerByte_underscore length_map)

lemma isASCII_replicate_underscore: "isASCII (replicate n (CHR ''_''))"
  by (induction n) (simp_all add: isASCII_def)

lemma isASCII_append: "isASCII (a @ b) = (isASCII a \<and> isASCII b)"
  by (simp add: isASCII_def)

lemma isASCII_padLoop: "isASCII (padLoop s) = isASCII s"
  by (simp only: padLoop_replicate isASCII_append isASCII_replicate_underscore simp_thms)

lemma ToLower_ascii: "isASCII s \<Longrightarrow> strings_ToLower unicodeLower s = map lowerByte s"
  by (simp add: strings_ToLower_def)

lemma lowerByte_ascii: "(of_char c :: nat) < 128 \<Longrightarrow> (of_char (lowerByte c) :: nat) < 128"
  by (simp add: lowerByte_def)

lemma lowerByte_idem: "lowerByte (lowerByte c) = lowerByte c"
  by (simp add: lowerByte_def)

lemma isASCII_map_lower: "isASCII s \<Longrightarrow> isASCII (map lowerByte s)"
  by (induction s) (simp_all add: isASCII_def lowerByte_ascii)

lemma PathNoId_ascii:
  assumes "isASCII fieldValue"
  shows "Index_PathNoId unicodeLower i fieldValue =
     Return (Index_PathPrefix i @ ''/'' @ take 2 (padLoop (map lowerByte fieldValue)) @ ''/'' @
             padLoop (map lowerByte fieldValue))"
proof -
  have a: "strings_ToLower unicodeLower (padLoop fieldValue) = padLoop (map lowerByte fieldValue)"
    using assms by (simp only: ToLower_ascii isASCII_padLoop padLoop_map_lower)
  have "\<not> length (padLoop (map lowerByte fieldValue)) < 2"
    using padLoop_length [of "map lowerByte fieldValue"] by simp
  then show ?thesis by (simp add: Index_PathNoId_def a Let_def)
qed

lemma PathNoId_Return:
  "Index_PathNoId unicodeLower i fieldValue = Return p \<Longrightarrow>
   \<exists>shard v. p = Index_PathPrefix i @ ''/'' @ shard @ ''/'' @ v \<and> length shard = 2 \<and>
     shard = take 2 v \<and> v = strings_ToLower unicodeLower (padLoop fieldValue)"
  by (auto simp: Index_PathNoId_def Let_def split: if_splits)

lemma Index_Path_Return:
  "Index_Path unicodeLower i fieldValue ident = Return p \<Longrightarrow>
   \<exists>q. Index_PathNoId unicodeLower i fieldValue = Return q \<and>
       p = q @ ''/'' @ Database (Table i) @ ''___'' @ Name (Table i) @ ''___'' @ ident"
  by (auto simp: Index_Path_def Let_def split: outcome.splits)

lemma Index_Path_ascii:
  "isASCII fieldValue \<Longrightarrow> \<exists>p. Index_Path unicodeLower i fieldValue ident = Return p"
  by (simp add: Index_Path_def PathNoId_ascii)

section \<open>Parsing paths\<close>

lemma no_underscore_no_sep: "CHR ''_'' \<notin> set d \<Longrightarrow> \<forall>a b. d \<noteq> a @ ''___'' @ b"
  by auto

lemma FromPath_of_file:
  assumes "afterLastSlash p = d @ ''___'' @ n @ ''___'' @ ident"
    and "separable d" "separable n"
  shows "DatabaseTableIdTupleFromPath p = Inr \<lparr>tupDatabase = d, tupTable = n, tupId = ident\<rparr>"
proof -
  have m1: "strings_Index (d @ ''___'' @ n @ ''___'' @ ident) ''___'' = int (length d)"
    by (rule Index_separable [OF assms(2)])
  have rest: "drop (length d + 3) (d @ ''___'' @ n @ ''___'' @ ident) = n @ ''___'' @ ident"
    by simp
  have m2: "strings_Index (n @ ''___'' @ ident) ''___'' = int (length n)"
    by (rule Index_separable [OF assms(3)])
  show ?thesis
    unfolding FromPath_unfold assms(1) Let_def m1 nat_int rest m2 by simp
qed

lemma FromPath_file_of:
  assumes "DatabaseTableIdTupleFromPath p = Inr tup"
  shows "separable (tupDatabase tup) \<and> separable (tupTable tup)"
proof -
  let ?fn = "afterLastSlash p"
  let ?m1 = "strings_Index ?fn ''___''"
  let ?rest = "drop (nat ?m1 + 3) ?fn"
  let ?m2 = "strings_Index ?rest ''___''"
  from assms have m1: "0 \<le> ?m1" and m2: "0 \<le> ?m2"
    and t1: "take (nat ?m1) ?fn = tupDatabase tup" and t2: "take (nat ?m2) ?rest = tupTable tup"
    by (auto simp: FromPath_unfold Let_def split: if_splits)
  have f: "?fn = tupDatabase tup @ ''___'' @ ?rest"
    using Index_decomp [OF _ m1] t1 by (simp add: numeral_3_eq_3)
  have r: "?rest = tupTable tup @ ''___'' @ drop (nat ?m2 + 3) ?rest"
    using Index_decomp [OF _ m2] t2 by (simp add: numeral_3_eq_3)
  have "0 \<le> strings_Index (tupDatabase tup @ ''___'' @ ?rest) ''___''"
    using m1 f by simp
  moreover have "take (nat (strings_Index (tupDatabase tup @ ''___'' @ ?rest) ''___''))
      (tupDatabase tup @ ''___'' @ ?rest) = tupDatabase tup"
    using t1 f by simp
  ultimately have sd: "separable (tupDatabase tup)"
    using Index_take_separable by blast
  have "0 \<le> strings_Index (tupTable tup @ ''___'' @ drop (nat ?m2 + 3) ?rest) ''___''"
    using m2 r by simp
  moreover have "take (nat (strings_Index (tupTable tup @ ''___'' @ drop (nat ?m2 + 3) ?rest) ''___''))
      (tupTable tup @ ''___'' @ drop (nat ?m2 + 3) ?rest) = tupTable tup"
    using t2 r by simp
  ultimately have "separable (tupTable tup)"
    using Index_take_separable by blast
  with sd show ?thesis by simp
qed

text \<open>
  C4, as the code has it. \<open>DatabaseTableIdTupleFromPath\<close> drops everything up to and
  including the last slash and cuts what is left at the first two occurrences of \<open>___\<close>
  only. It fails exactly when what is left is not of the form \<open>a___b___c\<close>, that is,
  when it would split into fewer than three parts, and the error is then the malformed
  path error on what is left. It returns a tuple exactly when what is left is database,
  \<open>___\<close>, table, \<open>___\<close>, id with database and table separable; further separators stay
  in the id, so a name of more than three parts is accepted.
\<close>

theorem FromPath_first_two_separators:
  "(\<exists>pre. p = pre @ afterLastSlash p \<and> CHR ''/'' \<notin> set (afterLastSlash p) \<and>
          (pre = [] \<or> last pre = CHR ''/'')) \<and>
   ((\<exists>e. DatabaseTableIdTupleFromPath p = Inl e) \<longleftrightarrow>
      \<not> (\<exists>a b c. afterLastSlash p = a @ ''___'' @ b @ ''___'' @ c)) \<and>
   (\<forall>e. DatabaseTableIdTupleFromPath p = Inl e \<longrightarrow> e = MalformedPath (afterLastSlash p)) \<and>
   (\<forall>tup::DatabaseTableIdTuple. DatabaseTableIdTupleFromPath p = Inr tup \<longleftrightarrow>
      afterLastSlash p = tupDatabase tup @ ''___'' @ tupTable tup @ ''___'' @ tupId tup \<and>
      separable (tupDatabase tup) \<and> separable (tupTable tup))"
proof -
  have a: "\<exists>pre. p = pre @ afterLastSlash p \<and> CHR ''/'' \<notin> set (afterLastSlash p) \<and>
          (pre = [] \<or> last pre = CHR ''/'')"
    by (rule afterLastSlash_spec)
  have b: "(\<exists>e. DatabaseTableIdTupleFromPath p = Inl e) \<longleftrightarrow>
      \<not> (\<exists>a b c. afterLastSlash p = a @ ''___'' @ b @ ''___'' @ c)"
  proof
    assume "\<exists>e. DatabaseTableIdTupleFromPath p = Inl e"
    then show "\<not> (\<exists>a b c. afterLastSlash p = a @ ''___'' @ b @ ''___'' @ c)"
      using FromPath_succeeds [of p] by fastforce
  next
    assume n: "\<not> (\<exists>a b c. afterLastSlash p = a @ ''___'' @ b @ ''___'' @ c)"
    show "\<exists>e. DatabaseTableIdTupleFromPath p = Inl e"
    proof (cases "DatabaseTableIdTupleFromPath p")
      case (Inl e)
      then show ?thesis by blast
    next
      case (Inr tup)
      from FromPath_parts [OF this] n show ?thesis by blast
    qed
  qed
  have c: "\<forall>e. DatabaseTableIdTupleFromPath p = Inl e \<longrightarrow> e = MalformedPath (afterLastSlash p)"
    using FromPath_error by blast
  have d: "\<forall>tup::DatabaseTableIdTuple. DatabaseTableIdTupleFromPath p = Inr tup \<longleftrightarrow>
      afterLastSlash p = tupDatabase tup @ ''___'' @ tupTable tup @ ''___'' @ tupId tup \<and>
      separable (tupDatabase tup) \<and> separable (tupTable tup)"
  proof (intro allI iffI)
    fix tup :: DatabaseTableIdTuple
    assume "DatabaseTableIdTupleFromPath p = Inr tup"
    then show "afterLastSlash p = tupDatabase tup @ ''___'' @ tupTable tup @ ''___'' @ tupId tup \<and>
      separable (tupDatabase tup) \<and> separable (tupTable tup)"
      using FromPath_parts FromPath_file_of by blast
  next
    fix tup :: DatabaseTableIdTuple
    assume "afterLastSlash p = tupDatabase tup @ ''___'' @ tupTable tup @ ''___'' @ tupId tup \<and>
      separable (tupDatabase tup) \<and> separable (tupTable tup)"
    then have "DatabaseTableIdTupleFromPath p =
      Inr \<lparr>tupDatabase = tupDatabase tup, tupTable = tupTable tup, tupId = tupId tup\<rparr>"
      using FromPath_of_file by blast
    then show "DatabaseTableIdTupleFromPath p = Inr tup" by simp
  qed
  from a b c d show ?thesis by blast
qed

theorem FromPath_first_two_separators_witness:
  "DatabaseTableIdTupleFromPath ''idx/sh/a___b___c___d'' =
     Inr \<lparr>tupDatabase = ''a'', tupTable = ''b'', tupId = ''c___d''\<rparr> \<and>
   \<not> (\<exists>a b c. afterLastSlash ''shop/orders/data/123.json'' = a @ ''___'' @ b @ ''___'' @ c)"
proof -
  let ?tup = "\<lparr>tupDatabase = ''a'', tupTable = ''b'', tupId = ''c___d''\<rparr>"
  have f: "afterLastSlash ''idx/sh/a___b___c___d'' =
      tupDatabase ?tup @ ''___'' @ tupTable ?tup @ ''___'' @ tupId ?tup"
    by code_simp
  have s: "separable (tupDatabase ?tup) \<and> separable (tupTable ?tup)"
    by (simp add: separable_no_underscore)
  have a: "DatabaseTableIdTupleFromPath ''idx/sh/a___b___c___d'' = Inr ?tup"
    using FromPath_first_two_separators [of "''idx/sh/a___b___c___d''"] f s by blast
  have "DatabaseTableIdTupleFromPath ''shop/orders/data/123.json'' =
      Inl (MalformedPath ''123.json'')"
    by code_simp
  then have e: "\<exists>e. DatabaseTableIdTupleFromPath ''shop/orders/data/123.json'' = Inl e"
    by blast
  have b: "\<not> (\<exists>a b c. afterLastSlash ''shop/orders/data/123.json'' = a @ ''___'' @ b @ ''___'' @ c)"
    using FromPath_first_two_separators [of "''shop/orders/data/123.json''"] e by blast
  from a b show ?thesis by blast
qed

text \<open>
  C4 as stated fails: a file name of four parts is parsed, its last two parts as the id.
\<close>

theorem FromPath_four_parts_counterexample:
  "DatabaseTableIdTupleFromPath ''a___b___c___d'' =
     Inr \<lparr>tupDatabase = ''a'', tupTable = ''b'', tupId = ''c___d''\<rparr>"
  by code_simp


text \<open>
  C1, as the code has it. The file name of a record path is the id followed by
  \<open>.json\<close>, not database, table and id joined by \<open>___\<close>. So parsing \<open>Path(id)\<close> never
  gives back the table's database, name and the id: any tuple it returns has an id
  shorter than the one the path was made of, and when the id holds no \<open>___\<close> the parse
  fails with the malformed path error on the file name.
\<close>

theorem Table_Path_no_roundtrip:
  "DatabaseTableIdTupleFromPath (Table_Path t ident) \<noteq>
     Inr \<lparr>tupDatabase = Database t, tupTable = Name t, tupId = ident\<rparr> \<and>
   (\<forall>tup::DatabaseTableIdTuple. DatabaseTableIdTupleFromPath (Table_Path t ident) = Inr tup \<longrightarrow>
      length (tupId tup) < length ident) \<and>
   ((\<forall>a b. ident \<noteq> a @ ''___'' @ b) \<longrightarrow>
      DatabaseTableIdTupleFromPath (Table_Path t ident) =
        Inl (MalformedPath (afterLastSlash (ident @ ''.json'')))) \<and>
   ((\<forall>a b. ident \<noteq> a @ ''___'' @ b) \<and> CHR ''/'' \<notin> set ident \<longrightarrow>
      DatabaseTableIdTupleFromPath (Table_Path t ident) = Inl (MalformedPath (ident @ ''.json'')))"
proof -
  have short: "\<forall>tup::DatabaseTableIdTuple.
      DatabaseTableIdTupleFromPath (Table_Path t ident) = Inr tup \<longrightarrow>
      length (tupId tup) < length ident"
    using Table_Path_Id_shorter by blast
  then have ne: "DatabaseTableIdTupleFromPath (Table_Path t ident) \<noteq>
     Inr \<lparr>tupDatabase = Database t, tupTable = Name t, tupId = ident\<rparr>"
    by fastforce
  have "CHR ''/'' \<notin> set ident \<Longrightarrow> afterLastSlash (ident @ ''.json'') = ident @ ''.json''"
    by (rule afterLastSlash_absent) simp
  with Table_Path_malformed [of ident t] short ne show ?thesis by simp
qed

theorem Table_Path_no_roundtrip_witness:
  "DatabaseTableIdTupleFromPath (Table_Path (MkTable ''shop'' ''orders'' []) ''123'') =
     Inl (MalformedPath ''123.json'')"
proof -
  have h: "(\<forall>a b. ''123'' \<noteq> a @ ''___'' @ b) \<and> CHR ''/'' \<notin> set ''123''"
    using no_underscore_no_sep [of "''123''"] by simp
  have "DatabaseTableIdTupleFromPath (Table_Path (MkTable ''shop'' ''orders'' []) ''123'') =
      Inl (MalformedPath (''123'' @ ''.json''))"
    using Table_Path_no_roundtrip [of "MkTable ''shop'' ''orders'' []" "''123''"] h
    by blast
  then show ?thesis by simp
qed

text \<open>
  C1 as stated fails for table \<open>orders\<close> of database \<open>shop\<close> and id \<open>123\<close>.
\<close>

theorem Table_Path_roundtrip_counterexample:
  "DatabaseTableIdTupleFromPath (Table_Path (MkTable ''shop'' ''orders'' []) ''123'') =
     Inl (MalformedPath ''123.json'') \<and>
   Table_Path (MkTable ''shop'' ''orders'' []) ''123'' = ''shop/orders/data/123.json''"
  by code_simp

text \<open>
  C5, as the code has it. \<open>Index.Path\<close> returns for every ASCII field value, and whenever
  it returns, whatever the field value, parsing the path gives back the database, the
  table name and the id exactly when none of the three holds a slash and database and
  table name are separable.
\<close>

theorem Index_Path_roundtrip:
  "(isASCII fieldValue \<longrightarrow> (\<exists>p. Index_Path unicodeLower i fieldValue ident = Return p)) \<and>
   (\<forall>p. Index_Path unicodeLower i fieldValue ident = Return p \<longrightarrow>
      (DatabaseTableIdTupleFromPath p =
         Inr \<lparr>tupDatabase = Database (Table i), tupTable = Name (Table i), tupId = ident\<rparr> \<longleftrightarrow>
       CHR ''/'' \<notin> set (Database (Table i)) \<and> CHR ''/'' \<notin> set (Name (Table i)) \<and>
       CHR ''/'' \<notin> set ident \<and>
       separable (Database (Table i)) \<and> separable (Name (Table i))))"
proof -
  let ?d = "Database (Table i)" and ?n = "Name (Table i)"
  let ?f = "?d @ ''___'' @ ?n @ ''___'' @ ident"
  let ?tup = "\<lparr>tupDatabase = ?d, tupTable = ?n, tupId = ident\<rparr>"
  have rt: "DatabaseTableIdTupleFromPath p = Inr ?tup \<longleftrightarrow>
       CHR ''/'' \<notin> set ?d \<and> CHR ''/'' \<notin> set ?n \<and> CHR ''/'' \<notin> set ident \<and>
       separable ?d \<and> separable ?n"
    if ret: "Index_Path unicodeLower i fieldValue ident = Return p" for p
  proof
    from Index_Path_Return [OF ret] obtain q where p: "p = q @ ''/'' @ ?f" by blast
    {
      assume ok: "DatabaseTableIdTupleFromPath p = Inr ?tup"
      from FromPath_parts [OF ok] have fn: "afterLastSlash p = ?f" by simp
      from afterLastSlash_spec [of p] have "CHR ''/'' \<notin> set ?f" unfolding fn by blast
      moreover from FromPath_file_of [OF ok] have "separable ?d \<and> separable ?n" by simp
      ultimately show "CHR ''/'' \<notin> set ?d \<and> CHR ''/'' \<notin> set ?n \<and> CHR ''/'' \<notin> set ident \<and>
         separable ?d \<and> separable ?n" by simp
    }
    {
      assume v: "CHR ''/'' \<notin> set ?d \<and> CHR ''/'' \<notin> set ?n \<and> CHR ''/'' \<notin> set ident \<and>
         separable ?d \<and> separable ?n"
      then have "CHR ''/'' \<notin> set ?f" by simp
      from afterLastSlash_append [OF this, of q] have "afterLastSlash p = ?f" unfolding p .
      from FromPath_of_file [OF this] v show "DatabaseTableIdTupleFromPath p = Inr ?tup" by blast
    }
  qed
  show ?thesis using rt Index_Path_ascii [of fieldValue unicodeLower i ident] by blast
qed

theorem Index_Path_roundtrip_witness:
  "\<exists>p. Index_Path id (MkIndex (MkTable ''shop'' ''orders'' []) ''status'') ''SHIPPED'' ''123'' =
         Return p \<and>
       DatabaseTableIdTupleFromPath p =
         Inr \<lparr>tupDatabase = ''shop'', tupTable = ''orders'', tupId = ''123''\<rparr>"
proof -
  let ?i = "MkIndex (MkTable ''shop'' ''orders'' []) ''status''"
  have a: "isASCII ''SHIPPED''" by code_simp
  have v: "CHR ''/'' \<notin> set (Database (Table ?i)) \<and> CHR ''/'' \<notin> set (Name (Table ?i)) \<and>
       CHR ''/'' \<notin> set ''123'' \<and>
       separable (Database (Table ?i)) \<and> separable (Name (Table ?i))"
    by (simp add: separable_no_underscore)
  from Index_Path_roundtrip [of "''SHIPPED''" id ?i "''123''"] a v
  show ?thesis by auto
qed

text \<open>
  C5 as stated fails for an id with a slash: the parse sees only what follows it.
\<close>

theorem Index_Path_roundtrip_counterexample:
  "Index_Path id (MkIndex (MkTable ''shop'' ''orders'' []) ''status'') ''SHIPPED'' ''12/3'' =
     Return ''shop/orders/indices/status/sh/shipped/shop___orders___12/3'' \<and>
   DatabaseTableIdTupleFromPath ''shop/orders/indices/status/sh/shipped/shop___orders___12/3'' =
     Inl (MalformedPath ''3'')"
  by code_simp

section \<open>Index shard paths\<close>

lemma PathNoId_ascii_spec:
  assumes "isASCII fieldValue"
  shows "Index_PathNoId unicodeLower i fieldValue = Return (PathNoId_spec unicodeLower i fieldValue)"
proof -
  have "strings_ToLower unicodeLower fieldValue = map lowerByte fieldValue"
    by (rule ToLower_ascii [OF assms])
  then show ?thesis
    by (simp only: PathNoId_ascii [OF assms] PathNoId_spec_def Let_def)
qed

lemma PathNoId_shard:
  "Index_PathNoId unicodeLower i fieldValue = Return p \<Longrightarrow>
   \<exists>shard v. p = Index_PathPrefix i @ ''/'' @ shard @ ''/'' @ v \<and> length shard = 2"
  using PathNoId_Return by blast

lemma PathNoId_case_insensitive:
  assumes "isASCII a" "isASCII b" "map lowerByte a = map lowerByte b"
  shows "Index_PathNoId unicodeLower i a = Index_PathNoId unicodeLower i b"
  by (simp only: PathNoId_ascii [OF assms(1)] PathNoId_ascii [OF assms(2)] assms(3))

lemma PathNoId_examples:
  "Index_PathNoId unicodeLower i ''AB'' = Index_PathNoId unicodeLower i ''ab'' \<and>
   Index_PathNoId unicodeLower i ''a'' = Index_PathNoId unicodeLower i ''_a'' \<and>
   Index_PathNoId unicodeLower i ''AB'' = Return (Index_PathPrefix i @ ''/ab/ab'') \<and>
   Index_PathNoId unicodeLower i ''a'' = Return (Index_PathPrefix i @ ''/_a/_a'')"
proof -
  have a: "isASCII ''AB''" "isASCII ''ab''" "isASCII ''a''" "isASCII ''_a''"
    by (simp_all add: isASCII_def)
  have "map lowerByte ''AB'' = ''ab'' \<and> map lowerByte ''ab'' = ''ab'' \<and>
    map lowerByte ''a'' = ''a'' \<and> map lowerByte ''_a'' = ''_a''"
    by code_simp
  then have l: "map lowerByte ''AB'' = ''ab''" "map lowerByte ''ab'' = ''ab''"
    "map lowerByte ''a'' = ''a''" "map lowerByte ''_a'' = ''_a''"
    by simp_all
  have p: "padLoop ''ab'' = ''ab''" "padLoop ''a'' = ''_a''" "padLoop ''_a'' = ''_a''"
    by (simp_all add: padLoop_replicate)
  have e1: "Index_PathNoId unicodeLower i ''AB'' = Return (Index_PathPrefix i @ ''/ab/ab'')"
    using PathNoId_ascii [OF a(1), of unicodeLower i] unfolding l p by simp
  have e2: "Index_PathNoId unicodeLower i ''ab'' = Return (Index_PathPrefix i @ ''/ab/ab'')"
    using PathNoId_ascii [OF a(2), of unicodeLower i] unfolding l p by simp
  have e3: "Index_PathNoId unicodeLower i ''a'' = Return (Index_PathPrefix i @ ''/_a/_a'')"
    using PathNoId_ascii [OF a(3), of unicodeLower i] unfolding l p by simp
  have e4: "Index_PathNoId unicodeLower i ''_a'' = Return (Index_PathPrefix i @ ''/_a/_a'')"
    using PathNoId_ascii [OF a(4), of unicodeLower i] unfolding l p by simp
  show ?thesis unfolding e1 e2 e3 e4 by simp
qed

text \<open>
  C6 at the Kelvin sign. Its three bytes need no padding; Go's Unicode tables lower-case
  U+212A to the single byte \<open>k\<close>, which is the hypothesis on \<open>unicodeLower\<close>; the slice
  \<open>fieldValue[:2]\<close> of the one byte left then panics. Lower-casing before padding, as
  the specification words it, gives the shard \<open>_k\<close>.
\<close>

theorem PathNoId_kelvin_panics:
  "unicodeLower kelvinSign = ''k'' \<Longrightarrow>
   (\<exists>msg. Index_PathNoId unicodeLower i kelvinSign = Panic msg) \<and>
   PathNoId_spec unicodeLower i kelvinSign = Index_PathPrefix i @ ''/_k/_k''"
proof -
  assume k: "unicodeLower kelvinSign = ''k''"
  have n: "\<not> isASCII kelvinSign" by (simp add: isASCII_def kelvinSign_def)
  have l: "strings_ToLower unicodeLower kelvinSign = ''k''"
    using n k by (simp add: strings_ToLower_def)
  have p: "padLoop kelvinSign = kelvinSign"
    by (rule padLoop_long) (simp add: kelvinSign_def)
  have q: "padLoop ''k'' = ''_k''" by (simp add: padLoop_replicate)
  show ?thesis
    by (simp add: Index_PathNoId_def PathNoId_spec_def p l q Let_def)
qed

theorem PathNoId_kelvin_panics_witness:
  "(\<exists>msg. Index_PathNoId (\<lambda>s. if s = kelvinSign then ''k'' else s)
       (MkIndex (MkTable ''shop'' ''orders'' []) ''status'') kelvinSign = Panic msg) \<and>
   PathNoId_spec (\<lambda>s. if s = kelvinSign then ''k'' else s)
       (MkIndex (MkTable ''shop'' ''orders'' []) ''status'') kelvinSign =
     ''shop/orders/indices/status/_k/_k''"
proof -
  let ?u = "\<lambda>s. if s = kelvinSign then ''k'' else s"
  have h: "?u kelvinSign = ''k''" by simp
  from PathNoId_kelvin_panics [of ?u, OF h, of "MkIndex (MkTable ''shop'' ''orders'' []) ''status''"]
  show ?thesis by (simp add: Index_PathPrefix_def)
qed

end
